theory Spec2Isabelle
  imports
    Main
    "HOL-Library.Char_ord"
    "HOL-Library.List_Lexorder"
    "HOL-Library.AList"
    "HOL-Library.Sublist"
begin

section \<open>The file system seen by scadufax\<close>

text \<open>
  The commands of scadufax read and write files through the Go packages \<open>os\<close> and
  \<open>path/filepath\<close>. A path is the list of its components (\<open>filepath.Join\<close> is append,
  \<open>filepath.Rel root p\<close> drops the components of \<open>root\<close>, \<open>filepath.Dir\<close> is \<open>butlast\<close>).
  The file system is an association list from paths to nodes; a regular file carries its
  bytes and its permission bits. The empty path is the root directory and always exists.
  Symbolic links and access rights of the calling process are not part of this model: the
  failures that remain are a missing path (\<open>ENOENT\<close>), a file where a directory is needed
  (\<open>ENOTDIR\<close>) and a directory where a file is needed (\<open>EISDIR\<close>).
\<close>

type_synonym path = "string list"

datatype node = File string nat | Dir

type_synonym fs = "(path \<times> node) list"

datatype errno = ENOENT | ENOTDIR | EISDIR

fun isFile :: "node option \<Rightarrow> bool" where
  "isFile (Some (File c m)) = True"
| "isFile _ = False"

definition stat :: "fs \<Rightarrow> path \<Rightarrow> errno + node" where
  "stat fs p =
     (if p = [] then Inr Dir
      else if list_ex (\<lambda>q. isFile (map_of fs q)) (prefixes (butlast p)) then Inl ENOTDIR
      else (case map_of fs p of None \<Rightarrow> Inl ENOENT | Some n \<Rightarrow> Inr n))"

text \<open>\<open>os.IsNotExist\<close> on the error of a system call: true for \<open>ENOENT\<close> only.\<close>

fun IsNotExist :: "errno + 'a \<Rightarrow> bool" where
  "IsNotExist (Inl ENOENT) = True"
| "IsNotExist _ = False"

text \<open>\<open>info.Mode()\<close>: the permission bits, with the directory bit \<open>1 << 31\<close> for a directory.\<close>

fun Mode :: "node \<Rightarrow> nat" where
  "Mode (File c m) = m"
| "Mode Dir = 2147483648 + 493"

definition ReadFile :: "fs \<Rightarrow> path \<Rightarrow> errno + string" where
  "ReadFile fs p =
     (case stat fs p of
        Inl e \<Rightarrow> Inl e
      | Inr Dir \<Rightarrow> Inl EISDIR
      | Inr (File c m) \<Rightarrow> Inr c)"

text \<open>
  \<open>os.WriteFile name data perm\<close> opens with \<open>O_WRONLY|O_CREATE|O_TRUNC\<close>: an existing file
  keeps its permission bits and gets the new bytes; a new file is created with \<open>perm\<close> in an
  existing directory. The umask of the process is not modelled: the bits of a new file
  are the bits the program asks for.
\<close>

definition WriteFile :: "fs \<Rightarrow> path \<Rightarrow> string \<Rightarrow> nat \<Rightarrow> errno + fs" where
  "WriteFile fs p data pm =
     (case stat fs p of
        Inr (File c m) \<Rightarrow> Inr (AList.update p (File data m) fs)
      | Inr Dir \<Rightarrow> Inl EISDIR
      | Inl ENOENT \<Rightarrow>
          (case stat fs (butlast p) of
             Inr Dir \<Rightarrow> Inr (AList.update p (File data pm) fs)
           | Inr (File c m) \<Rightarrow> Inl ENOTDIR
           | Inl e \<Rightarrow> Inl e)
      | Inl e \<Rightarrow> Inl e)"

text \<open>\<open>os.MkdirAll\<close>: every missing directory on the way to \<open>p\<close> is created.\<close>

fun mkdirs :: "fs \<Rightarrow> path list \<Rightarrow> errno + fs" where
  "mkdirs fs [] = Inr fs"
| "mkdirs fs (q # qs) =
     (case map_of fs q of
        Some (File c m) \<Rightarrow> Inl ENOTDIR
      | Some Dir \<Rightarrow> mkdirs fs qs
      | None \<Rightarrow> mkdirs (AList.update q Dir fs) qs)"

definition MkdirAll :: "fs \<Rightarrow> path \<Rightarrow> errno + fs" where
  "MkdirAll fs p = mkdirs fs (tl (prefixes p))"


text \<open>
  \<open>filepath.WalkDir root\<close> with the prologue that every callback of scadufax shares: an
  error of the walk is returned, a directory named \<open>.git\<close> is skipped with its content,
  any other directory is entered, and the rest of the callback runs on the files only.
  \<open>walkFiles\<close> gives the files the rest of the callback sees, in the order of the walk:
  the entries of a directory are read sorted by name, so the files come in the
  lexicographic order of their component lists.
\<close>

definition isRegular :: "fs \<Rightarrow> path \<Rightarrow> bool" where
  "isRegular fs p = (case stat fs p of Inr (File c m) \<Rightarrow> True | _ \<Rightarrow> False)"

definition underGit :: "path \<Rightarrow> path \<Rightarrow> bool" where
  "underGit root p \<longleftrightarrow>
     (root \<noteq> [] \<and> last root = ''.git'') \<or> ''.git'' \<in> set (butlast (drop (length root) p))"

definition walkFiles :: "fs \<Rightarrow> path \<Rightarrow> errno + path list" where
  "walkFiles fs root =
     (case stat fs root of
        Inl e \<Rightarrow> Inl e
      | Inr (File c m) \<Rightarrow> Inr [root]
      | Inr Dir \<Rightarrow>
          Inr (filter (\<lambda>p. strict_prefix root p \<and> isRegular fs p \<and> \<not> underGit root p)
                 (sort (remdups (map fst fs)))))"

text \<open>The string of a relative path, as \<open>filepath.Rel\<close> returns it.\<close>

fun joinSlash :: "string list \<Rightarrow> string" where
  "joinSlash [] = []"
| "joinSlash [c] = c"
| "joinSlash (c # cs) = c @ ''/'' @ joinSlash cs"

definition relString :: "path \<Rightarrow> string" where
  "relString rel = (if rel = [] then ''.'' else joinSlash rel)"

section \<open>Ignore patterns\<close>

text \<open>
  \<open>filepath.Match\<close> for the patterns built from literal characters, \<open>?\<close> (one character
  other than the separator) and \<open>*\<close> (any run of characters other than the separator).
  Character classes and backslash escapes are not modelled; the theorems below do not
  depend on how a pattern matches, only the worked examples do, and they use literal
  patterns and \<open>*\<close>.
\<close>

function filepath_Match :: "string \<Rightarrow> string \<Rightarrow> bool" where
  "filepath_Match [] s = (s = [])"
| "filepath_Match (c # cs) [] = (c = CHR ''*'' \<and> filepath_Match cs [])"
| "filepath_Match (c # cs) (x # xs) =
     (if c = CHR ''*'' then
        filepath_Match cs (x # xs) \<or> (x \<noteq> CHR ''/'' \<and> filepath_Match (c # cs) xs)
      else if c = CHR ''?'' then x \<noteq> CHR ''/'' \<and> filepath_Match cs xs
      else c = x \<and> filepath_Match cs xs)"
  by pat_completeness auto
termination
  by (relation "measure (\<lambda>(p, s). length p + length s)") auto

fun isIgnored :: "string \<Rightarrow> string list \<Rightarrow> bool" where
  "isIgnored relPath [] = False"
| "isIgnored relPath (p # patterns) =
     (if filepath_Match p relPath then True else isIgnored relPath patterns)"

section \<open>The diff engine\<close>

datatype status = New | Modified | Deleted

definition areFilesDifferent :: "fs \<Rightarrow> path \<Rightarrow> path \<Rightarrow> bool" where
  "areFilesDifferent fs pathA pathB =
     (case ReadFile fs pathA of
        Inl e \<Rightarrow> True
      | Inr cA \<Rightarrow> (case ReadFile fs pathB of Inl e \<Rightarrow> True | Inr cB \<Rightarrow> cA \<noteq> cB))"

text \<open>The callback of the walk over the source tree in \<open>compareDirs\<close>: the lines it prints.\<close>

definition compareSource :: "fs \<Rightarrow> path \<Rightarrow> path \<Rightarrow> string list \<Rightarrow> path \<Rightarrow> (status \<times> path) list" where
  "compareSource fs sourceDir targetDir ignores p =
     (let rel = drop (length sourceDir) p in
      if isIgnored (relString rel) ignores then []
      else if IsNotExist (stat fs (targetDir @ rel)) then [(New, rel)]
      else if areFilesDifferent fs p (targetDir @ rel) then [(Modified, rel)]
      else [])"

text \<open>The callback of the walk over the target tree, run under \<open>--all\<close>.\<close>

definition compareTarget :: "fs \<Rightarrow> path \<Rightarrow> path \<Rightarrow> string list \<Rightarrow> path \<Rightarrow> (status \<times> path) list" where
  "compareTarget fs sourceDir targetDir ignores p =
     (let rel = drop (length targetDir) p in
      if isIgnored (relString rel) ignores then []
      else if IsNotExist (stat fs (sourceDir @ rel)) then [(Deleted, rel)]
      else [])"

text \<open>
  \<open>compareDirs\<close> prints one line per difference and returns the error of a walk. The
  result is the printed lines, in order, with the error if there is one.
\<close>

definition compareDirs ::
  "fs \<Rightarrow> path \<Rightarrow> path \<Rightarrow> string list \<Rightarrow> bool \<Rightarrow> (status \<times> path) list \<times> errno option" where
  "compareDirs fs sourceDir targetDir ignores checkAll =
     (case walkFiles fs sourceDir of
        Inl e \<Rightarrow> ([], Some e)
      | Inr ps \<Rightarrow>
          (let out1 = concat (map (compareSource fs sourceDir targetDir ignores) ps) in
           if checkAll then
             (case walkFiles fs targetDir of
                Inl e \<Rightarrow> (out1, Some e)
              | Inr qs \<Rightarrow>
                  (out1 @ concat (map (compareTarget fs sourceDir targetDir ignores) qs), None))
           else (out1, None)))"

text \<open>
  \<open>getDiffs\<close> of the update command: the same walk over the source tree; it prints the
  \<open>N\<close> and \<open>M\<close> lines and collects the relative paths of the new and modified files.
\<close>

definition getDiffs ::
  "fs \<Rightarrow> path \<Rightarrow> path \<Rightarrow> string list \<Rightarrow> path list \<times> (status \<times> path) list \<times> errno option" where
  "getDiffs fs sourceDir targetDir ignores =
     (case walkFiles fs sourceDir of
        Inl e \<Rightarrow> ([], [], Some e)
      | Inr ps \<Rightarrow>
          (let out = concat (map (compareSource fs sourceDir targetDir ignores) ps)
           in (map snd out, out, None)))"

section \<open>The list command\<close>

datatype listLine = MISSING path | PRESENT path | UNMANAGED path

text \<open>
  \<open>listCmd\<close> after the checkout of the main branch: the first walk prints every file of the
  repository with the state of its counterpart in the home directory and does not consult
  the ignore patterns; the second walk, under \<open>--all\<close>, prints the files of the home
  directory that the repository does not have, and skips the ignored ones.
\<close>

definition listMain :: "fs \<Rightarrow> path \<Rightarrow> path \<Rightarrow> path \<Rightarrow> listLine" where
  "listMain fs localDir homeDir p =
     (let rel = drop (length localDir) p; homePath = homeDir @ rel in
      if IsNotExist (stat fs homePath) then MISSING homePath else PRESENT homePath)"

definition listUnmanaged :: "fs \<Rightarrow> path \<Rightarrow> path \<Rightarrow> string list \<Rightarrow> path \<Rightarrow> listLine list" where
  "listUnmanaged fs localDir homeDir ignorePatterns p =
     (let rel = drop (length homeDir) p in
      if isIgnored (relString rel) ignorePatterns then []
      else if IsNotExist (stat fs (localDir @ rel)) then [UNMANAGED p]
      else [])"

definition listCmd ::
  "fs \<Rightarrow> path \<Rightarrow> path \<Rightarrow> string list \<Rightarrow> bool \<Rightarrow> listLine list \<times> errno option" where
  "listCmd fs localDir homeDir ignorePatterns listAll =
     (case walkFiles fs localDir of
        Inl e \<Rightarrow> ([], Some e)
      | Inr ps \<Rightarrow>
          (let out1 = map (listMain fs localDir homeDir) ps in
           if listAll then
             (case walkFiles fs homeDir of
                Inl e \<Rightarrow> (out1, Some e)
              | Inr qs \<Rightarrow>
                  (out1 @ concat (map (listUnmanaged fs localDir homeDir ignorePatterns) qs), None))
           else (out1, None)))"

section \<open>The secret resolver\<close>

text \<open>
  \<open>godotenv.Read\<close> opens the file and parses it into a map. The parser of the \<open>.env\<close>
  syntax belongs to the library and is a parameter here: it gives the map of a file's
  bytes, or nothing when the bytes are not a well-formed \<open>.env\<close> file.
\<close>

datatype envError = OpenError errno | EnvSyntaxError

fun envIsNotExist :: "envError \<Rightarrow> bool" where
  "envIsNotExist (OpenError ENOENT) = True"
| "envIsNotExist _ = False"

definition godotenv_Read ::
  "(string \<Rightarrow> (string \<rightharpoonup> string) option) \<Rightarrow> fs \<Rightarrow> path \<Rightarrow> envError + (string \<rightharpoonup> string)" where
  "godotenv_Read parseEnv fs envPath =
     (case ReadFile fs envPath of
        Inl e \<Rightarrow> Inl (OpenError e)
      | Inr bytes \<Rightarrow> (case parseEnv bytes of None \<Rightarrow> Inl EnvSyntaxError | Some m \<Rightarrow> Inr m))"

datatype secretError = StoreUnreadable path envError | KeyNotFound string path

text \<open>The closure \<open>GetSecretFn\<close> returns: both branches of \<open>required\<close> give the same error.\<close>

definition lookupSecret :: "(string \<rightharpoonup> string) \<Rightarrow> path \<Rightarrow> bool \<Rightarrow> string \<Rightarrow> secretError + string" where
  "lookupSecret envMap envPath required key =
     (case envMap key of
        None \<Rightarrow> (if required then Inl (KeyNotFound key envPath) else Inl (KeyNotFound key envPath))
      | Some val \<Rightarrow> Inr val)"

definition GetSecretFn ::
  "(string \<Rightarrow> (string \<rightharpoonup> string) option) \<Rightarrow> fs \<Rightarrow> path \<Rightarrow> bool
     \<Rightarrow> secretError + (string \<Rightarrow> secretError + string)" where
  "GetSecretFn parseEnv fs envPath required =
     (if required then
        (case godotenv_Read parseEnv fs envPath of
           Inl err \<Rightarrow> Inl (StoreUnreadable envPath err)
         | Inr envMap \<Rightarrow> Inr (lookupSecret envMap envPath required))
      else
        (case godotenv_Read parseEnv fs envPath of
           Inl err \<Rightarrow>
             (if \<not> envIsNotExist err then Inl (StoreUnreadable envPath err)
              else Inr (lookupSecret Map.empty envPath required))
         | Inr envMap \<Rightarrow> Inr (lookupSecret envMap envPath required)))"

section \<open>The update command: waiting for the fork, applying the differences\<close>



text \<open>
  The loop of \<open>updateCmd\<close> that waits for the fork. \<open>heads i\<close> is what \<open>gitops.GetHeadID\<close>
  returns on the fork after \<open>i\<close> pulls of the loop, \<open>pulls i\<close> the error of the pull that
  follows the \<open>i\<close>-th sleep, if it fails. The loop has no bound: it is a partial function,
  and \<open>None\<close> stands for a run that never ends. A finished run gives the error, if any,
  the number of rounds of sleeping and pulling it went through, and what it did: the
  printed lines, with the sleeps of five seconds among them.
\<close>






section \<open>Templates\<close>

text \<open>
  The files are templates of Go's \<open>text/template\<close>, parsed with the function \<open>secret\<close> and
  the option \<open>missingkey=error\<close>, and executed on the settings of viper. The model covers
  the two actions the files of scadufax use: the lookup of a dotted key, \<open>{{ .a.b }}\<close>, and
  the pipeline of a string literal into the secret function, \<open>{{ "KEY" | secret }}\<close>, with
  any white space inside the delimiters. A string literal is a run of printable ASCII
  characters without the double quote and the backslash. What the model parses, the
  library parses to the same actions; an end of input inside an action is an error of the
  library too (\<open>UnclosedAction\<close>); everything else the model does not parse is reported as
  \<open>Unsupported\<close>, and the model says nothing about what the library does with it.

  A value of the context is a scalar, kept as the string that \<open>fmt\<close> prints for it, or a
  nested mapping.
\<close>

datatype val = Str string | Map "(string \<times> val) list"

type_synonym settings = "(string \<times> val) list"

datatype action = Lookup "string list" | Secret string

datatype tnode = Text string | Action action

datatype parseError = UnclosedAction | Unsupported

datatype execError = MissingKey string | CannotEvaluateField string | CallFailed secretError

definition isSpace :: "char \<Rightarrow> bool" where
  "isSpace c \<longleftrightarrow> c = CHR '' '' \<or> c = CHR 0x09 \<or> c = CHR 0x0D \<or> c = CHR 0x0A"

definition isAlpha :: "char \<Rightarrow> bool" where
  "isAlpha c \<longleftrightarrow>
     c = CHR ''_'' \<or> (CHR ''A'' \<le> c \<and> c \<le> CHR ''Z'') \<or> (CHR ''a'' \<le> c \<and> c \<le> CHR ''z'')"

definition isAlphaNumeric :: "char \<Rightarrow> bool" where
  "isAlphaNumeric c \<longleftrightarrow> isAlpha c \<or> (CHR ''0'' \<le> c \<and> c \<le> CHR ''9'')"

definition isPlain :: "char \<Rightarrow> bool" where
  "isPlain c \<longleftrightarrow> CHR '' '' \<le> c \<and> c \<le> CHR ''~'' \<and> c \<noteq> CHR 0x22 \<and> c \<noteq> CHR 0x5C"

text \<open>The text up to the first left delimiter, and what follows the delimiter.\<close>

fun lexText :: "string \<Rightarrow> string \<times> string option" where
  "lexText [] = ([], None)"
| "lexText [c] = ([c], None)"
| "lexText (c # d # cs) =
     (if c = CHR ''{'' \<and> d = CHR ''{'' then ([], Some cs)
      else (case lexText (d # cs) of (t, r) \<Rightarrow> (c # t, r)))"

text \<open>The right delimiter, after any white space.\<close>

definition closeAction :: "string \<Rightarrow> parseError + string" where
  "closeAction s =
     (case dropWhile isSpace s of
        [] \<Rightarrow> Inl UnclosedAction
      | c # r \<Rightarrow>
          (case r of
             [] \<Rightarrow> Inl Unsupported
           | d # r' \<Rightarrow> if c = CHR ''}'' \<and> d = CHR ''}'' then Inr r' else Inl Unsupported))"

text \<open>A chain of fields \<open>.a.b\<close>: every name starts with a letter or an underscore.\<close>

function fieldChain :: "string \<Rightarrow> (string list \<times> string) option" where
  "fieldChain [] = None"
| "fieldChain (c # s) =
     (let name = takeWhile isAlphaNumeric s; rest = dropWhile isAlphaNumeric s in
      if c \<noteq> CHR ''.'' \<or> name = [] \<or> \<not> isAlpha (hd name) then None
      else if rest \<noteq> [] \<and> hd rest = CHR ''.'' then
        (case fieldChain rest of None \<Rightarrow> None | Some (names, r) \<Rightarrow> Some (name # names, r))
      else Some ([name], rest))"
  by pat_completeness auto
termination
  by (relation "measure length") (auto simp: length_dropWhile_le less_Suc_eq_le)

definition parseAction :: "string \<Rightarrow> parseError + (action \<times> string)" where
  "parseAction s =
     (case dropWhile isSpace s of
        [] \<Rightarrow> Inl UnclosedAction
      | c # cs \<Rightarrow>
          if c = CHR ''.'' then
            (case fieldChain (c # cs) of
               None \<Rightarrow> Inl Unsupported
             | Some (names, rest) \<Rightarrow>
                 (case closeAction rest of Inl e \<Rightarrow> Inl e | Inr r \<Rightarrow> Inr (Lookup names, r)))
          else if c = CHR 0x22 then
            (case dropWhile isPlain cs of
               [] \<Rightarrow> Inl UnclosedAction
             | q # r1 \<Rightarrow>
                 if q \<noteq> CHR 0x22 then Inl Unsupported
                 else
                   (case dropWhile isSpace r1 of
                      [] \<Rightarrow> Inl UnclosedAction
                    | b # r2 \<Rightarrow>
                        if b \<noteq> CHR ''|'' then Inl Unsupported
                        else
                          (let r3 = dropWhile isSpace r2 in
                           if r3 = [] then Inl UnclosedAction
                           else if takeWhile isAlphaNumeric r3 = ''secret'' then
                             (case closeAction (dropWhile isAlphaNumeric r3) of
                                Inl e \<Rightarrow> Inl e
                              | Inr r \<Rightarrow> Inr (Secret (takeWhile isPlain cs), r))
                           else Inl Unsupported)))
          else Inl Unsupported)"

text \<open>\<open>Parse\<close>: the text and the actions of a template, in order.\<close>

function template_Parse :: "string \<Rightarrow> parseError + tnode list" where
  "template_Parse s =
     (case lexText s of
        (t, None) \<Rightarrow> Inr (if t = [] then [] else [Text t])
      | (t, Some rest) \<Rightarrow>
          (case parseAction rest of
             Inl e \<Rightarrow> Inl e
           | Inr (a, rest') \<Rightarrow>
               (case template_Parse rest' of
                  Inl e \<Rightarrow> Inl e
                | Inr nodes \<Rightarrow> Inr ((if t = [] then [] else [Text t]) @ Action a # nodes))))"
  by pat_completeness auto
termination
proof (relation "measure length")
  show "wf (measure length)" by simp
next
  fix s :: string and t y rest b a rest'
  assume lx: "(t, y) = lexText s" "y = Some rest"
    and pa: "parseAction rest = Inr b" "(a, rest') = b"
  have text_shorter: "lexText u = (v, Some r) \<Longrightarrow> length r < length u" for u v r
    by (induction u arbitrary: v rule: lexText.induct) (auto split: if_splits prod.splits)
  have close_shorter: "length r < length u" if "closeAction u = Inr r" for u r
  proof -
    from that obtain c d where "dropWhile isSpace u = c # d # r"
      by (auto simp: closeAction_def split: list.splits if_splits)
    then have "length (dropWhile isSpace u) = Suc (Suc (length r))" by simp
    moreover have "length (dropWhile isSpace u) \<le> length u" by (rule length_dropWhile_le)
    ultimately show ?thesis by simp
  qed
  have chain_shorter: "fieldChain u = Some (names, r) \<Longrightarrow> length r \<le> length u" for u names r
  proof (induction u arbitrary: names r rule: fieldChain.induct)
    case 1
    then show ?case by simp
  next
    case (2 c u)
    have le: "length (dropWhile isAlphaNumeric u) \<le> length u" by (rule length_dropWhile_le)
    show ?case
    proof (cases "dropWhile isAlphaNumeric u \<noteq> [] \<and> hd (dropWhile isAlphaNumeric u) = CHR ''.''")
      case True
      with "2.prems" obtain names' where
        "fieldChain (dropWhile isAlphaNumeric u) = Some (names', r)"
        by (auto simp: Let_def split: if_splits option.splits)
      with "2.IH"[OF refl refl _ True this] "2.prems" le show ?thesis
        by (auto simp: Let_def split: if_splits)
    next
      case False
      with "2.prems" le show ?thesis by (auto simp: Let_def split: if_splits)
    qed
  qed
  have "length rest' < length rest"
  proof -
    from pa have run: "parseAction rest = Inr (a, rest')" by simp
    have s0: "length (dropWhile isSpace rest) \<le> length rest" by (rule length_dropWhile_le)
    from run obtain c cs where d: "dropWhile isSpace rest = c # cs"
      by (auto simp: parseAction_def split: list.splits)
    show ?thesis
    proof (cases "c = CHR ''.''")
      case True
      with run d obtain names r0 where
        fc: "fieldChain (c # cs) = Some (names, r0)" and cl: "closeAction r0 = Inr rest'"
        by (auto simp: parseAction_def split: option.splits sum.splits)
      from chain_shorter[OF fc] close_shorter[OF cl] d s0 show ?thesis by simp
    next
      case False
      with run d obtain r1 where p1: "dropWhile isPlain cs = CHR 0x22 # r1"
        by (auto simp: parseAction_def split: if_splits list.splits)
      with run d False obtain r2 where p2: "dropWhile isSpace r1 = CHR ''|'' # r2"
        by (auto simp: parseAction_def split: if_splits list.splits)
      with run d False p1 have
        cl: "closeAction (dropWhile isAlphaNumeric (dropWhile isSpace r2)) = Inr rest'"
        by (auto simp: parseAction_def Let_def split: if_splits sum.splits)
      have "length (dropWhile isPlain cs) \<le> length cs"
        "length (dropWhile isSpace r1) \<le> length r1"
        "length (dropWhile isSpace r2) \<le> length r2"
        "length (dropWhile isAlphaNumeric (dropWhile isSpace r2)) \<le> length (dropWhile isSpace r2)"
        by (rule length_dropWhile_le)+
      with close_shorter[OF cl] p1 p2 d s0 show ?thesis by simp
    qed
  qed
  moreover from lx have "lexText s = (t, Some rest)" by simp
  then have "length rest < length s" by (rule text_shorter)
  ultimately show "(rest', s) \<in> measure length" by simp
qed

declare template_Parse.simps [simp del]

text \<open>How \<open>fmt\<close> prints a value: a mapping as \<open>map[k:v ...]\<close> with its keys sorted.\<close>

fun joinSpace :: "string list \<Rightarrow> string" where
  "joinSpace [] = []"
| "joinSpace [s] = s"
| "joinSpace (s # ss) = s @ '' '' @ joinSpace ss"

fun printValue :: "val \<Rightarrow> string" where
  "printValue (Str s) = s"
| "printValue (Map kvs) =
     ''map['' @ joinSpace (map snd (sort_key fst
        (map (\<lambda>kv. (fst kv, fst kv @ '':'' @ printValue (snd kv))) kvs))) @ '']''"

text \<open>The fields of a chain, one after the other; a missing key of a mapping is an error.\<close>

fun evalField :: "val \<Rightarrow> string list \<Rightarrow> execError + val" where
  "evalField v [] = Inr v"
| "evalField (Str s) (k # ks) = Inl (CannotEvaluateField k)"
| "evalField (Map kvs) (k # ks) =
     (case map_of kvs k of None \<Rightarrow> Inl (MissingKey k) | Some v \<Rightarrow> evalField v ks)"

fun evalAction :: "settings \<Rightarrow> (string \<Rightarrow> secretError + string) \<Rightarrow> action \<Rightarrow> execError + string" where
  "evalAction data secretFn (Lookup names) =
     (case evalField (Map data) names of Inl e \<Rightarrow> Inl e | Inr v \<Rightarrow> Inr (printValue v))"
| "evalAction data secretFn (Secret key) =
     (case secretFn key of Inl e \<Rightarrow> Inl (CallFailed e) | Inr s \<Rightarrow> Inr s)"

text \<open>\<open>Execute\<close>: the output of the nodes in order, up to the first error.\<close>

fun template_Execute ::
  "tnode list \<Rightarrow> settings \<Rightarrow> (string \<Rightarrow> secretError + string) \<Rightarrow> execError + string" where
  "template_Execute [] data secretFn = Inr []"
| "template_Execute (Text t # nodes) data secretFn =
     (case template_Execute nodes data secretFn of Inl e \<Rightarrow> Inl e | Inr out \<Rightarrow> Inr (t @ out))"
| "template_Execute (Action a # nodes) data secretFn =
     (case evalAction data secretFn a of
        Inl e \<Rightarrow> Inl e
      | Inr s \<Rightarrow>
          (case template_Execute nodes data secretFn of Inl e \<Rightarrow> Inl e | Inr out \<Rightarrow> Inr (s @ out)))"

section \<open>Reification\<close>

text \<open>
  The resolver of the reify command when \<open>--secret\<close> is not given, and of the full check:
  \<open>fmt.Sprintf("{{ %q | secret }}", key)\<close>. \<open>quote\<close> is \<open>%q\<close> on printable ASCII: the double
  quote and the backslash are escaped, the other characters stand for themselves.
\<close>

definition quoteChar :: "char \<Rightarrow> string" where
  "quoteChar c =
     (if c = CHR 0x22 then [CHR 0x5C, CHR 0x22]
      else if c = CHR 0x5C then [CHR 0x5C, CHR 0x5C]
      else [c])"

definition quote :: "string \<Rightarrow> string" where
  "quote s = CHR 0x22 # concat (map quoteChar s) @ [CHR 0x22]"

definition passThrough :: "string \<Rightarrow> secretError + string" where
  "passThrough key = Inr (''{{ '' @ quote key @ '' | secret }}'')"

datatype reifyError =
    WalkFailed errno
  | ReadFailed path errno
  | MkdirFailed path errno
  | ParseFailed path parseError
  | ExecuteFailed path execError
  | WriteFailed path errno
  | DryRunFailed reifyError

definition renderAndWrite ::
  "fs \<Rightarrow> path \<Rightarrow> path \<Rightarrow> string \<Rightarrow> settings \<Rightarrow> (string \<Rightarrow> secretError + string) \<Rightarrow> bool
     \<Rightarrow> fs \<times> reifyError option" where
  "renderAndWrite fs name destPath content data secretFn dryRun =
     (case template_Parse content of
        Inl err \<Rightarrow> (fs, Some (ParseFailed name err))
      | Inr tmpl \<Rightarrow>
          if dryRun then
            (case template_Execute tmpl data secretFn of
               Inl err \<Rightarrow> (fs, Some (ExecuteFailed name err))
             | Inr discarded \<Rightarrow> (fs, None))
          else
            (case template_Execute tmpl data secretFn of
               Inl err \<Rightarrow> (fs, Some (ExecuteFailed name err))
             | Inr buf \<Rightarrow>
                 (let perm = (case stat fs destPath of Inr info \<Rightarrow> Mode info | Inl e \<Rightarrow> 420) in
                  case WriteFile fs destPath buf perm of
                    Inl err \<Rightarrow> (fs, Some (WriteFailed destPath err))
                  | Inr fs' \<Rightarrow> (fs', None))))"

definition processFile ::
  "fs \<Rightarrow> path \<Rightarrow> settings \<Rightarrow> (string \<Rightarrow> secretError + string) \<Rightarrow> bool \<Rightarrow> fs \<times> reifyError option" where
  "processFile fs path data secretFn dryRun =
     (case ReadFile fs path of
        Inl err \<Rightarrow> (fs, Some (ReadFailed path err))
      | Inr content \<Rightarrow> renderAndWrite fs path path content data secretFn dryRun)"

text \<open>The walk of \<open>walkAndProcess\<close> over the files: it stops at the first error.\<close>

fun processAll ::
  "fs \<Rightarrow> path list \<Rightarrow> settings \<Rightarrow> (string \<Rightarrow> secretError + string) \<Rightarrow> bool
     \<Rightarrow> fs \<times> reifyError option" where
  "processAll fs [] data secretFn dryRun = (fs, None)"
| "processAll fs (p # ps) data secretFn dryRun =
     (case processFile fs p data secretFn dryRun of
        (fs', Some err) \<Rightarrow> (fs', Some err)
      | (fs', None) \<Rightarrow> processAll fs' ps data secretFn dryRun)"

definition walkAndProcess ::
  "fs \<Rightarrow> path \<Rightarrow> settings \<Rightarrow> (string \<Rightarrow> secretError + string) \<Rightarrow> bool \<Rightarrow> fs \<times> reifyError option" where
  "walkAndProcess fs root data secretFn dryRun =
     (case walkFiles fs root of
        Inl err \<Rightarrow> (fs, Some (WalkFailed err))
      | Inr ps \<Rightarrow> processAll fs ps data secretFn dryRun)"

definition Reify ::
  "fs \<Rightarrow> path \<Rightarrow> settings \<Rightarrow> (string \<Rightarrow> secretError + string) \<Rightarrow> bool \<Rightarrow> fs \<times> reifyError option" where
  "Reify fs root data secretFn dryRun =
     (case walkAndProcess fs root data secretFn True of
        (fs1, Some err) \<Rightarrow> (fs1, Some (DryRunFailed err))
      | (fs1, None) \<Rightarrow>
          if dryRun then (fs1, None) else walkAndProcess fs1 root data secretFn False)"

definition ReifyFile ::
  "fs \<Rightarrow> path \<Rightarrow> path \<Rightarrow> settings \<Rightarrow> (string \<Rightarrow> secretError + string) \<Rightarrow> fs \<times> reifyError option" where
  "ReifyFile fs sourcePath destPath data secretFn =
     (case ReadFile fs sourcePath of
        Inl err \<Rightarrow> (fs, Some (ReadFailed sourcePath err))
      | Inr content \<Rightarrow>
          (case MkdirAll fs (butlast destPath) of
             Inl err \<Rightarrow> (fs, Some (MkdirFailed destPath err))
           | Inr fs1 \<Rightarrow> renderAndWrite fs1 sourcePath destPath content data secretFn False))"

text \<open>
  The text of a list of nodes with every secret written the way the pass-through resolver
  writes it, \<open>{{ "KEY" | secret }}\<close>, and every lookup as \<open>{{ .a.b }}\<close>.
\<close>

fun joinDots :: "string list \<Rightarrow> string" where
  "joinDots [] = []"
| "joinDots (k # ks) = ''.'' @ k @ joinDots ks"

fun canonicalText :: "tnode list \<Rightarrow> string" where
  "canonicalText [] = []"
| "canonicalText (Text t # nodes) = t @ canonicalText nodes"
| "canonicalText (Action (Secret key) # nodes) =
     ''{{ '' @ quote key @ '' | secret }}'' @ canonicalText nodes"
| "canonicalText (Action (Lookup names) # nodes) =
     ''{{ '' @ joinDots names @ '' }}'' @ canonicalText nodes"

text \<open>A template that looks nothing up in the settings.\<close>

definition lookupFree :: "tnode list \<Rightarrow> bool" where
  "lookupFree tmpl \<longleftrightarrow> (\<forall>names. Action (Lookup names) \<notin> set tmpl)"

text \<open>
  A template whose lookups, with the given settings, print nothing that has an opening
  brace in it: no value that the rendering writes can start an action.
\<close>

definition braceFree :: "string \<Rightarrow> bool" where
  "braceFree s \<longleftrightarrow> CHR ''{'' \<notin> set s"

fun valueBraceFree :: "settings \<Rightarrow> tnode \<Rightarrow> bool" where
  "valueBraceFree data (Action (Lookup names)) =
     (case evalField (Map data) names of Inl e \<Rightarrow> True | Inr v \<Rightarrow> braceFree (printValue v))"
| "valueBraceFree data n = True"

definition valuesBraceFree :: "settings \<Rightarrow> tnode list \<Rightarrow> bool" where
  "valuesBraceFree data tmpl = list_all (valueBraceFree data) tmpl"

section \<open>Notions used in the proofs\<close>

text \<open>A path is blocked when a regular file stands where one of its directories should be.\<close>

definition blocked :: "fs \<Rightarrow> path \<Rightarrow> bool" where
  "blocked fs p \<longleftrightarrow> (\<exists>x. strict_prefix x p \<and> isFile (map_of fs x))"

text \<open>
  A file is fixed when rendering it with the pass-through resolver gives back its bytes.
\<close>

definition fixedFile :: "fs \<Rightarrow> settings \<Rightarrow> path \<Rightarrow> bool" where
  "fixedFile fs data p \<longleftrightarrow>
     (\<exists>c m tmpl. stat fs p = Inr (File c m) \<and> template_Parse c = Inr tmpl
        \<and> template_Execute tmpl data passThrough = Inr c)"

text \<open>
  Two file systems have the same shape when they have the same paths in the same order
  and differ at most in the bytes and permission bits of regular files.
\<close>

definition sameShape :: "fs \<Rightarrow> fs \<Rightarrow> bool" where
  "sameShape fs' fs \<longleftrightarrow>
     map fst fs' = map fst fs \<and>
     (\<forall>q. map_of fs' q = map_of fs q \<or> (isFile (map_of fs' q) \<and> isFile (map_of fs q)))"

text \<open>
  A text is safe when the lexer, given the text and then an opening delimiter, stops at
  that delimiter; it has no delimiter when the lexer reads it to its end.
\<close>

definition safe :: "string \<Rightarrow> bool" where
  "safe w \<longleftrightarrow> lexText (w @ ''{{'') = (w, Some [])"

definition noDelim :: "string \<Rightarrow> bool" where
  "noDelim w \<longleftrightarrow> lexText w = (w, None)"

text \<open>The shape of what the parser returns: safe texts before actions, plain keys.\<close>

fun wellLexed :: "tnode list \<Rightarrow> bool" where
  "wellLexed [] = True"
| "wellLexed [Text t] = noDelim t"
| "wellLexed (Text t # n # ns) = (safe t \<and> wellLexed (n # ns))"
| "wellLexed (Action (Secret k) # ns) = ((\<forall>c\<in>set k. isPlain c) \<and> wellLexed ns)"
| "wellLexed (Action (Lookup names) # ns) = wellLexed ns"

section \<open>Worked examples\<close>

text \<open>The trees \<open>A = {a: "1", b: "2"}\<close> and \<open>B = {a: "1", b: "3", c: "4"}\<close>.\<close>

definition treesAB :: fs where
  "treesAB =
     [([''A''], Dir), ([''A'', ''a''], File ''1'' 420), ([''A'', ''b''], File ''2'' 420),
      ([''B''], Dir), ([''B'', ''a''], File ''1'' 420), ([''B'', ''b''], File ''3'' 420),
      ([''B'', ''c''], File ''4'' 420)]"

text \<open>A repository with one file and a home directory with a log file beside it.\<close>

definition repoHome :: fs where
  "repoHome =
     [([''repo''], Dir), ([''repo'', ''b''], File ''1'' 420),
      ([''home''], Dir), ([''home'', ''b''], File ''1'' 420),
      ([''home'', ''x.log''], File ''1'' 420)]"

text \<open>
  A parser for \<open>.env\<close> files that have nothing but \<open>KEY=value\<close> lines, and a directory
  with such a file.
\<close>

fun splitLines :: "string \<Rightarrow> string list" where
  "splitLines [] = [[]]"
| "splitLines (c # cs) =
     (if c = CHR 0x0A then [] # splitLines cs
      else (case splitLines cs of [] \<Rightarrow> [[c]] | l # ls \<Rightarrow> (c # l) # ls))"

definition keyValue :: "string \<Rightarrow> (string \<times> string) option" where
  "keyValue l =
     (if CHR ''='' \<in> set l
      then Some (takeWhile (\<lambda>c. c \<noteq> CHR ''='') l, tl (dropWhile (\<lambda>c. c \<noteq> CHR ''='') l))
      else None)"

definition plainEnv :: "string \<Rightarrow> (string \<rightharpoonup> string) option" where
  "plainEnv bytes = Some (map_of (List.map_filter keyValue (splitLines bytes)))"

definition withEnv :: fs where
  "withEnv = [([''t''], Dir), ([''t'', ''.env''], File ''OTHER=MySecret'' 420)]"





text \<open>
  A tree to reify: a version-control directory, two files that look up a key, the second
  one private, and a file with a secret; and two sets of settings, the first without the
  key \<open>user\<close>.
\<close>

definition reifyTree :: fs where
  \<open>reifyTree =
     [([''t''], Dir),
      ([''t'', ''.git''], Dir), ([''t'', ''.git'', ''HEAD''], File ''{{'' 420),
      ([''t'', ''a.conf''], File ''name = {{ .name }}'' 416),
      ([''t'', ''b.conf''], File ''user = {{ .user }}'' 384),
      ([''t'', ''c.conf''], File ''token = {{ "KEY" | secret }}'' 420)]\<close>

definition nameOnly :: settings where
  "nameOnly = [(''name'', Str ''scadu''), (''git'', Map [(''name'', Str ''n'')])]"

definition nameAndUser :: settings where
  "nameAndUser = [(''name'', Str ''scadu''), (''user'', Str ''u'')]"

text \<open>The tree above once it has been reified with both keys and no secrets.\<close>

definition reifyTreeAfter :: fs where
  \<open>reifyTreeAfter =
     [([''t''], Dir),
      ([''t'', ''.git''], Dir), ([''t'', ''.git'', ''HEAD''], File ''{{'' 420),
      ([''t'', ''a.conf''], File ''name = scadu'' 416),
      ([''t'', ''b.conf''], File ''user = u'' 384),
      ([''t'', ''c.conf''], File ''token = {{ "KEY" | secret }}'' 420)]\<close>




text \<open>Settings with a value that is itself a template, and a file that looks it up.\<close>

definition nested :: settings where
  "nested = [(''x'', Str ''{{ .y }}''), (''y'', Str ''z'')]"

definition nestedTree :: "string \<Rightarrow> fs" where
  "nestedTree bytes = [([''t''], Dir), ([''t'', ''f''], File bytes 420)]"

section \<open>Facts about the file system\<close>

lemma prefix_butlast_iff: "p \<noteq> [] \<Longrightarrow> prefix x (butlast p) \<longleftrightarrow> strict_prefix x p"
proof -
  assume "p \<noteq> []"
  then obtain ys y where p: "p = ys @ [y]" by (metis append_butlast_last_id)
  have "prefix x ys \<Longrightarrow> x \<noteq> ys @ [y]" by (auto dest: prefix_length_le)
  then show ?thesis by (auto simp: p strict_prefix_def)
qed

lemma blocked_iff:
  "p \<noteq> [] \<Longrightarrow> list_ex (\<lambda>q. isFile (map_of fs q)) (prefixes (butlast p)) = blocked fs p"
  by (auto simp: list_ex_iff blocked_def prefix_butlast_iff)

lemma stat_alt:
  "stat fs p =
     (if p = [] then Inr Dir
      else if blocked fs p then Inl ENOTDIR
      else (case map_of fs p of None \<Rightarrow> Inl ENOENT | Some n \<Rightarrow> Inr n))"
  by (simp add: stat_def blocked_iff)

lemma stat_Inr_File:
  "stat fs p = Inr (File c m) \<longleftrightarrow> p \<noteq> [] \<and> \<not> blocked fs p \<and> map_of fs p = Some (File c m)"
  by (simp add: stat_alt split: option.splits)

lemma blocked_cong:
  "(\<And>x. isFile (map_of fs' x) = isFile (map_of fs x)) \<Longrightarrow> blocked fs' p = blocked fs p"
  by (simp add: blocked_def)

lemma blocked_update_File:
  "isFile (map_of fs p) \<Longrightarrow> blocked (AList.update p (File d m) fs) q = blocked fs q"
  by (rule blocked_cong) (auto simp: update_conv')

lemma mkdirs_keeps:
  "mkdirs fs qs = Inr fs' \<Longrightarrow>
     (\<forall>x. isFile (map_of fs' x) = isFile (map_of fs x)) \<and>
     (\<forall>x n. map_of fs x = Some n \<longrightarrow> map_of fs' x = Some n)"
proof (induction qs arbitrary: fs)
  case Nil
  then show ?case by simp
next
  case (Cons q qs)
  show ?case
  proof (cases "map_of fs q")
    case None
    with Cons.prems have "mkdirs (AList.update q Dir fs) qs = Inr fs'" by simp
    from Cons.IH[OF this] have
      a: "\<And>x. isFile (map_of fs' x) = isFile (map_of (AList.update q Dir fs) x)" and
      b: "\<And>x n. map_of (AList.update q Dir fs) x = Some n \<Longrightarrow> map_of fs' x = Some n"
      by blast+
    have "isFile (map_of (AList.update q Dir fs) x) = isFile (map_of fs x)" for x
      using None by (simp add: update_conv')
    moreover have "map_of fs x = Some n \<Longrightarrow> map_of (AList.update q Dir fs) x = Some n" for x n
      using None by (auto simp: update_conv')
    ultimately show ?thesis using a b by simp
  next
    case (Some n)
    with Cons.prems Cons.IH show ?thesis by (cases n) auto
  qed
qed

lemma MkdirAll_stat_File:
  assumes "MkdirAll fs d = Inr fs'" "stat fs p = Inr (File c m)"
  shows "stat fs' p = Inr (File c m)"
proof -
  from assms(1) have k: "(\<forall>x. isFile (map_of fs' x) = isFile (map_of fs x)) \<and>
     (\<forall>x n. map_of fs x = Some n \<longrightarrow> map_of fs' x = Some n)"
    unfolding MkdirAll_def by (rule mkdirs_keeps)
  then have "blocked fs' p = blocked fs p" by (intro blocked_cong) simp
  with k assms(2) show ?thesis by (simp add: stat_Inr_File)
qed

lemma WriteFile_Inr:
  assumes "WriteFile fs p d pm = Inr fs'"
  shows "p \<noteq> [] \<and> \<not> blocked fs p \<and>
     (\<exists>m. fs' = AList.update p (File d m) fs \<and>
          (\<forall>c m0. map_of fs p = Some (File c m0) \<longrightarrow> m = m0) \<and>
          (map_of fs p = None \<longrightarrow> m = pm))"
proof (cases "stat fs p")
  case (Inl e)
  with assms show ?thesis
    by (cases e)
      (auto simp: WriteFile_def stat_alt split: sum.splits node.splits option.splits if_splits)
next
  case (Inr n)
  with assms show ?thesis
    by (cases n) (auto simp: WriteFile_def stat_alt split: option.splits if_splits)
qed



section \<open>Facts about copying\<close>






section \<open>Facts about the ignore patterns\<close>

lemma compareSource_ignored:
  "(st, rel) \<in> set (compareSource fs s t ignores p) \<Longrightarrow> \<not> isIgnored (relString rel) ignores"
  by (auto simp: compareSource_def Let_def split: if_splits)

lemma compareTarget_ignored:
  "(st, rel) \<in> set (compareTarget fs s t ignores p) \<Longrightarrow> \<not> isIgnored (relString rel) ignores"
  by (auto simp: compareTarget_def Let_def split: if_splits)

lemma compareDirs_ignored:
  "(st, rel) \<in> set (fst (compareDirs fs s t ignores checkAll)) \<Longrightarrow>
     \<not> isIgnored (relString rel) ignores"
  by (auto simp: compareDirs_def Let_def split: sum.splits if_splits
      dest: compareSource_ignored compareTarget_ignored)

lemma getDiffs_ignored:
  "(st, rel) \<in> set (fst (snd (getDiffs fs s t ignores))) \<Longrightarrow>
     \<not> isIgnored (relString rel) ignores"
  by (auto simp: getDiffs_def Let_def split: sum.splits dest: compareSource_ignored)

lemma getDiffs_changes: "fst (getDiffs fs s t ignores) = map snd (fst (snd (getDiffs fs s t ignores)))"
  by (simp add: getDiffs_def Let_def split: sum.splits)

lemma listCmd_unmanaged_ignored:
  "UNMANAGED p \<in> set (fst (listCmd fs l h ignores listAll)) \<Longrightarrow>
     \<not> isIgnored (relString (drop (length h) p)) ignores"
  by (auto simp: listCmd_def listUnmanaged_def listMain_def Let_def split: sum.splits if_splits)

section \<open>Facts about the waiting loop\<close>


section \<open>Facts about templates and the dry run\<close>

lemma processAll_dry:
  "processAll fs ps data secretFn True = (fs', r) \<Longrightarrow> fs' = fs"
proof (induction ps)
  case Nil
  then show ?case by simp
next
  case (Cons p ps)
  have one: "fst (processFile fs p data secretFn True) = fs"
    by (auto simp: processFile_def renderAndWrite_def split: sum.splits)
  with Cons show ?case
    by (cases "processFile fs p data secretFn True") (auto split: option.splits)
qed


lemma template_Execute_append:
  "template_Execute (pre @ rest) data secretFn =
     (case template_Execute pre data secretFn of
        Inl e \<Rightarrow> Inl e
      | Inr o1 \<Rightarrow>
          (case template_Execute rest data secretFn of Inl e \<Rightarrow> Inl e | Inr o2 \<Rightarrow> Inr (o1 @ o2)))"
  by (induction pre data secretFn rule: template_Execute.induct) (auto split: sum.splits)

lemma evalField_append:
  "evalField v (ks @ ks') = (case evalField v ks of Inl e \<Rightarrow> Inl e | Inr v' \<Rightarrow> evalField v' ks')"
  by (induction v ks rule: evalField.induct) (auto split: option.splits)

lemma template_Execute_fails:
  "n \<in> set tmpl \<Longrightarrow> n = Action a \<Longrightarrow> evalAction data secretFn a = Inl e \<Longrightarrow>
     \<exists>e'. template_Execute tmpl data secretFn = Inl e'"
  by (induction tmpl data secretFn rule: template_Execute.induct) (auto split: sum.splits)

lemma mkdirs_map_of:
  "mkdirs fs qs = Inr fs' \<Longrightarrow> x \<notin> set qs \<Longrightarrow> map_of fs' x = map_of fs x"
proof (induction qs arbitrary: fs)
  case Nil
  then show ?case by simp
next
  case (Cons q qs)
  show ?case
  proof (cases "map_of fs q")
    case None
    with Cons.prems have "mkdirs (AList.update q Dir fs) qs = Inr fs'" by simp
    from Cons.IH[OF this] Cons.prems(2) show ?thesis by (simp add: update_conv')
  next
    case (Some n)
    with Cons show ?thesis by (cases n) auto
  qed
qed

section \<open>Facts about the pass-through resolver\<close>

lemma lexText_None: "lexText s = (t, None) \<Longrightarrow> t = s"
  by (induction s arbitrary: t rule: lexText.induct) (auto split: if_splits prod.splits)

lemma lexText_hd:
  "lexText (d # cs) = (t, r) \<Longrightarrow> (t = [] \<and> d = CHR ''{'') \<or> (\<exists>t'. t = d # t')"
  by (cases cs) (auto split: if_splits prod.splits)

lemma lexText_again:
  "lexText s = (t, Some r) \<Longrightarrow> lexText (t @ ''{{'' @ r') = (t, Some r')"
proof (induction s arbitrary: t rule: lexText.induct)
  case 1
  then show ?case by simp
next
  case (2 c)
  then show ?case by simp
next
  case (3 c d cs)
  show ?case
  proof (cases "c = CHR ''{'' \<and> d = CHR ''{''")
    case True
    with "3.prems" show ?thesis by simp
  next
    case False
    with "3.prems" obtain t' where t': "lexText (d # cs) = (t', Some r)" and t: "t = c # t'"
      by (auto split: prod.splits)
    from "3.IH"[OF False t'] have ih: "lexText (t' @ ''{{'' @ r') = (t', Some r')" .
    from lexText_hd[OF t'] show ?thesis
    proof
      assume "t' = [] \<and> d = CHR ''{''"
      with False ih show ?thesis by (simp add: t)
    next
      assume "\<exists>t''. t' = d # t''"
      then obtain t'' where "t' = d # t''" ..
      with False ih show ?thesis by (simp add: t)
    qed
  qed
qed

lemma while_stops:
  "\<forall>x\<in>set k. P x \<Longrightarrow> \<not> P y \<Longrightarrow>
     dropWhile P (k @ y # ys) = y # ys \<and> takeWhile P (k @ y # ys) = k"
  by (induction k) auto

lemma quote_plain: "\<forall>c\<in>set k. isPlain c \<Longrightarrow> quote k = CHR 0x22 # k @ [CHR 0x22]"
proof -
  assume "\<forall>c\<in>set k. isPlain c"
  then have "concat (map quoteChar k) = k"
    by (induction k) (auto simp: quoteChar_def isPlain_def)
  then show ?thesis by (simp add: quote_def)
qed

lemma parseAction_canonical:
  assumes "\<forall>c\<in>set k. isPlain c"
  shows "parseAction ('' '' @ quote k @ '' | secret }}'' @ r) = Inr (Secret k, r)"
proof -
  have notPlain: "\<not> isPlain (CHR 0x22)" by (simp add: isPlain_def)
  have w: "dropWhile isPlain (k @ CHR 0x22 # '' | secret }}'' @ r) = CHR 0x22 # '' | secret }}'' @ r"
    "takeWhile isPlain (k @ CHR 0x22 # '' | secret }}'' @ r) = k"
    using while_stops[OF assms notPlain] by blast+
  have sp: "isSpace (CHR '' '')" "\<not> isSpace (CHR 0x22)" "\<not> isSpace (CHR ''|'')"
    "\<not> isSpace (CHR ''s'')" "\<not> isSpace (CHR ''}'')"
    by (simp_all add: isSpace_def)
  have an: "takeWhile isAlphaNumeric (''secret }}'' @ r) = ''secret''"
    "dropWhile isAlphaNumeric (''secret }}'' @ r) = '' }}'' @ r"
    by (simp_all add: isAlphaNumeric_def isAlpha_def)
  have cl: "closeAction ('' }}'' @ r) = Inr r"
    by (simp add: closeAction_def sp)
  show ?thesis
    unfolding quote_plain[OF assms]
    using w an cl by (simp add: parseAction_def sp)
qed

lemma parseAction_Secret_plain:
  assumes "parseAction s = Inr (Secret k, r)"
  shows "\<forall>c\<in>set k. isPlain c"
proof -
  from assms obtain cs where "k = takeWhile isPlain cs"
    by (auto simp: parseAction_def Let_def split: list.splits if_splits option.splits sum.splits)
  then show ?thesis by (auto dest: set_takeWhileD)
qed

lemma lookupFree_simps:
  "lookupFree []"
  "lookupFree (Text t # nodes) = lookupFree nodes"
  "lookupFree (Action (Secret k) # nodes) = lookupFree nodes"
  "\<not> lookupFree (Action (Lookup names) # nodes)"
  by (auto simp: lookupFree_def)

lemma execute_passThrough:
  "lookupFree tmpl \<Longrightarrow> template_Execute tmpl data passThrough = Inr (canonicalText tmpl)"
proof (induction tmpl)
  case Nil
  then show ?case by simp
next
  case (Cons n tmpl)
  show ?case
  proof (cases n)
    case (Text t)
    with Cons show ?thesis by (simp add: lookupFree_simps)
  next
    case (Action a)
    with Cons show ?thesis
      by (cases a) (simp_all add: lookupFree_simps passThrough_def)
  qed
qed

lemma parse_canonical:
  "template_Parse s = Inr tmpl \<Longrightarrow> lookupFree tmpl \<Longrightarrow>
     template_Parse (canonicalText tmpl) = Inr tmpl"
proof (induction s arbitrary: tmpl rule: template_Parse.induct)
  case (1 s)
  obtain t y where lx: "lexText s = (t, y)" by (cases "lexText s")
  show ?case
  proof (cases y)
    case None
    with lx have "t = s" by (simp add: lexText_None)
    with lx None "1.prems"(1) have "canonicalText tmpl = s"
      by (subst (asm) template_Parse.simps) (auto split: if_splits)
    with "1.prems"(1) show ?thesis by simp
  next
    case (Some rest)
    with lx "1.prems"(1) obtain a rest' nodes where
      pa: "parseAction rest = Inr (a, rest')" and
      pr: "template_Parse rest' = Inr nodes" and
      tmpl: "tmpl = (if t = [] then [] else [Text t]) @ Action a # nodes"
      by (subst (asm) template_Parse.simps) (auto split: sum.splits prod.splits)
    from "1.prems"(2) tmpl obtain k where a: "a = Secret k" and lf: "lookupFree nodes"
      by (cases a) (auto simp: lookupFree_simps split: if_splits)
    from pa a have plain: "\<forall>c\<in>set k. isPlain c" by (auto dest: parseAction_Secret_plain)
    from "1.IH"[OF lx[symmetric] Some pa refl pr lf]
    have ih: "template_Parse (canonicalText nodes) = Inr nodes" .
    have ct: "canonicalText tmpl =
        t @ ''{{'' @ ('' '' @ quote k @ '' | secret }}'' @ canonicalText nodes)"
      by (simp add: tmpl a)
    have "lexText (t @ ''{{'' @ ('' '' @ quote k @ '' | secret }}'' @ canonicalText nodes)) =
        (t, Some ('' '' @ quote k @ '' | secret }}'' @ canonicalText nodes))"
      using lx Some by (intro lexText_again) simp
    then show ?thesis
      unfolding ct
      by (subst template_Parse.simps)
        (simp add: parseAction_canonical[OF plain] ih tmpl a del: append.simps)
  qed
qed

section \<open>Facts about rendered text\<close>

lemma safe_Nil: "safe []"
  by (simp add: safe_def)

lemma safe_tl: "safe (c # a) \<Longrightarrow> safe a"
  by (cases "a @ ''{{''") (auto simp: safe_def split: if_splits prod.splits)

lemma safe_Cons_brace: "safe (c # a) \<Longrightarrow> a = [] \<Longrightarrow> c \<noteq> CHR ''{''"
  by (auto simp: safe_def)

lemma safe_Cons_Cons: "safe (c # d # a) \<Longrightarrow> \<not> (c = CHR ''{'' \<and> d = CHR ''{'')"
  by (auto simp: safe_def)

lemma lexText_safe_append:
  "safe a \<Longrightarrow> lexText (a @ b) = (a @ fst (lexText b), snd (lexText b))"
proof (induction a)
  case Nil
  then show ?case by simp
next
  case (Cons c a)
  from Cons.prems have sa: "safe a" by (rule safe_tl)
  note ih = Cons.IH[OF sa]
  show ?case
  proof (cases a)
    case Nil
    with Cons.prems have "c \<noteq> CHR ''{''" by (simp add: safe_Cons_brace)
    with Nil show ?thesis by (cases b) (auto split: prod.splits)
  next
    case (Cons d a')
    with Cons.prems have "\<not> (c = CHR ''{'' \<and> d = CHR ''{'')" by (simp add: safe_Cons_Cons)
    with ih Cons show ?thesis by (auto split: prod.splits)
  qed
qed

lemma safe_append: "safe a \<Longrightarrow> safe b \<Longrightarrow> safe (a @ b)"
  using lexText_safe_append[of a "b @ ''{{''"] by (simp add: safe_def)

lemma safe_noDelim_append: "safe a \<Longrightarrow> noDelim b \<Longrightarrow> noDelim (a @ b)"
  using lexText_safe_append[of a b] by (simp add: noDelim_def)

lemma safe_noDelim: "safe a \<Longrightarrow> noDelim a"
  using safe_noDelim_append[of a "[]"] by (simp add: noDelim_def)

lemma braceFree_safe: "braceFree v \<Longrightarrow> safe v"
proof (induction v)
  case Nil
  then show ?case by (simp add: safe_def)
next
  case (Cons c v)
  then have "c \<noteq> CHR ''{''" "safe v" by (auto simp: braceFree_def)
  then show ?case by (cases "v @ ''{{''") (auto simp: safe_def)
qed

lemma safe_lex: "safe w \<Longrightarrow> lexText (w @ ''{{'' @ r) = (w, Some r)"
  using lexText_again[of "w @ ''{{''" w "[]" r] by (simp add: safe_def)

lemma lexText_safe: "lexText s = (t, Some r) \<Longrightarrow> safe t"
  using lexText_again[of s t r "[]"] by (simp add: safe_def)

lemma parse_wellLexed: "template_Parse s = Inr tmpl \<Longrightarrow> wellLexed tmpl"
proof (induction s arbitrary: tmpl rule: template_Parse.induct)
  case (1 s)
  obtain t y where lx: "lexText s = (t, y)" by (cases "lexText s")
  show ?case
  proof (cases y)
    case None
    with lx have "t = s" by (simp add: lexText_None)
    with lx None have "noDelim s" by (simp add: noDelim_def)
    moreover from lx None "1.prems" \<open>t = s\<close> have "tmpl = (if s = [] then [] else [Text s])"
      by (subst (asm) template_Parse.simps) auto
    ultimately show ?thesis by simp
  next
    case (Some rest)
    with lx "1.prems" obtain a rest' nodes where
      pa: "parseAction rest = Inr (a, rest')" and
      pr: "template_Parse rest' = Inr nodes" and
      tmpl: "tmpl = (if t = [] then [] else [Text t]) @ Action a # nodes"
      by (subst (asm) template_Parse.simps) (auto split: sum.splits prod.splits)
    from "1.IH"[OF lx[symmetric] Some pa refl pr] have wl: "wellLexed nodes" .
    from lx Some have st: "safe t" by (auto dest: lexText_safe)
    have "wellLexed (Action a # nodes)"
    proof (cases a)
      case (Lookup names)
      with wl show ?thesis by simp
    next
      case (Secret k)
      with pa have "\<forall>c\<in>set k. isPlain c" by (auto dest: parseAction_Secret_plain)
      with wl Secret show ?thesis by simp
    qed
    with st show ?thesis by (simp add: tmpl)
  qed
qed

lemma parse_noDelim: "noDelim w \<Longrightarrow> template_Parse w = Inr (if w = [] then [] else [Text w])"
  by (subst template_Parse.simps) (simp add: noDelim_def)

lemma rendered_parses:
  "wellLexed tmpl \<Longrightarrow> valuesBraceFree data tmpl \<Longrightarrow>
   template_Execute tmpl data passThrough = Inr out \<Longrightarrow> safe w \<Longrightarrow>
     \<exists>tmpl'. template_Parse (w @ out) = Inr tmpl' \<and> lookupFree tmpl'
        \<and> canonicalText tmpl' = w @ out"
proof (induction tmpl arbitrary: out w rule: wellLexed.induct)
  case 1
  then have "out = []" by simp
  with 1 show ?case
    by (auto simp: parse_noDelim safe_noDelim lookupFree_simps)
next
  case (2 t)
  then have out: "out = t" by simp
  from 2 have "noDelim (w @ t)" by (auto intro: safe_noDelim_append)
  then show ?case
    by (auto simp: out parse_noDelim lookupFree_simps)
next
  case (3 t n ns)
  from "3.prems"(3) obtain out' where
    o': "template_Execute (n # ns) data passThrough = Inr out'" and out: "out = t @ out'"
    by (auto split: sum.splits)
  from "3.prems" have "safe (w @ t)" by (auto intro: safe_append)
  from "3.IH"[OF _ _ o' this] "3.prems" show ?case
    by (simp add: out valuesBraceFree_def)
next
  case (4 k ns)
  have ex4: "template_Execute (Action (Secret k) # ns) data passThrough =
      (case template_Execute ns data passThrough of
         Inl e \<Rightarrow> Inl e
       | Inr out' \<Rightarrow> Inr (''{{ '' @ quote k @ '' | secret }}'' @ out'))"
    by (simp add: passThrough_def split: sum.splits)
  from "4.prems"(3)[unfolded ex4] obtain out' where
    o': "template_Execute ns data passThrough = Inr out'" and
    out: "out = ''{{ '' @ quote k @ '' | secret }}'' @ out'"
    by (auto split: sum.splits)
  from "4.prems"(1) have plain: "\<forall>c\<in>set k. isPlain c" by simp
  from "4.IH"[OF _ _ o' safe_Nil] "4.prems" obtain tmpl' where
    t': "template_Parse out' = Inr tmpl'" "lookupFree tmpl'" "canonicalText tmpl' = out'"
    by (auto simp: valuesBraceFree_def)
  have lx: "lexText (w @ ''{{'' @ ('' '' @ quote k @ '' | secret }}'' @ out')) =
      (w, Some ('' '' @ quote k @ '' | secret }}'' @ out'))"
    by (rule safe_lex[OF "4.prems"(4)])
  have "w @ out = w @ ''{{'' @ ('' '' @ quote k @ '' | secret }}'' @ out')"
    by (simp add: out)
  then have "template_Parse (w @ out) =
      Inr ((if w = [] then [] else [Text w]) @ Action (Secret k) # tmpl')"
    using lx by (subst template_Parse.simps)
      (simp add: parseAction_canonical[OF plain] t' del: append.simps)
  moreover have "lookupFree ((if w = [] then [] else [Text w]) @ Action (Secret k) # tmpl')"
    using t'(2) by (simp add: lookupFree_simps)
  moreover have "canonicalText ((if w = [] then [] else [Text w]) @ Action (Secret k) # tmpl')
      = w @ out"
    using t'(3) by (simp add: out)
  ultimately show ?case by blast
next
  case (5 names ns)
  from "5.prems"(3) obtain v out' where
    ev: "evalField (Map data) names = Inr v" and
    o': "template_Execute ns data passThrough = Inr out'" and
    out: "out = printValue v @ out'"
    by (auto split: sum.splits)
  from "5.prems"(2) ev have "braceFree (printValue v)" by (simp add: valuesBraceFree_def)
  then have "safe (w @ printValue v)" using "5.prems"(4) by (auto intro: safe_append braceFree_safe)
  from "5.IH"[OF _ _ o' this] "5.prems" show ?case
    by (simp add: out valuesBraceFree_def)
qed

lemma rendered_fixed:
  assumes "template_Parse c = Inr tmpl" "valuesBraceFree data tmpl"
    "template_Execute tmpl data passThrough = Inr out"
  shows "\<exists>tmpl'. template_Parse out = Inr tmpl' \<and> template_Execute tmpl' data passThrough = Inr out"
proof -
  from rendered_parses[OF parse_wellLexed[OF assms(1)] assms(2,3) safe_Nil]
  obtain tmpl' where "template_Parse out = Inr tmpl'" "lookupFree tmpl'" "canonicalText tmpl' = out"
    by auto
  with execute_passThrough[of tmpl' data] show ?thesis by auto
qed

section \<open>Facts about reification in place\<close>

lemma stat_update_other:
  "map_of fs p = Some (File c m) \<Longrightarrow> q \<noteq> p \<Longrightarrow>
     stat (AList.update p (File c' m') fs) q = stat fs q"
  by (simp add: stat_alt blocked_update_File update_conv')

lemma stat_update_same:
  "stat fs p = Inr (File c m) \<Longrightarrow> stat (AList.update p (File c' m') fs) p = Inr (File c' m')"
  by (simp add: stat_Inr_File blocked_update_File update_conv')

lemma processFile_write:
  assumes "stat fs p = Inr (File c m)" "template_Parse c = Inr tmpl"
    "template_Execute tmpl data secretFn = Inr out"
  shows "processFile fs p data secretFn False = (AList.update p (File out m) fs, None)"
  using assms by (simp add: processFile_def ReadFile_def renderAndWrite_def WriteFile_def)

lemma processFile_fixed:
  assumes "fixedFile fs data p"
  shows "processFile fs p data passThrough dryRun = (fs, None)"
proof -
  from assms obtain c m tmpl where f: "stat fs p = Inr (File c m)" "template_Parse c = Inr tmpl"
    "template_Execute tmpl data passThrough = Inr c"
    by (auto simp: fixedFile_def)
  from f(1) have "map_of fs p = Some (File c m)" by (simp add: stat_Inr_File)
  then have "AList.update p (File c m) fs = fs" by (rule update_triv)
  with f show ?thesis
    by (cases dryRun) (simp_all add: processFile_def ReadFile_def renderAndWrite_def WriteFile_def)
qed

lemma processAll_fixed:
  "\<forall>p\<in>set ps. fixedFile fs data p \<Longrightarrow> processAll fs ps data passThrough dryRun = (fs, None)"
  by (induction ps) (auto simp: processFile_fixed)

lemma sameShape_refl: "sameShape fs fs"
  by (simp add: sameShape_def)

lemma sameShape_trans: "sameShape fs2 fs1 \<Longrightarrow> sameShape fs1 fs \<Longrightarrow> sameShape fs2 fs"
  unfolding sameShape_def by (metis (no_types))

lemma sameShape_update:
  assumes "map_of fs p = Some (File c m)"
  shows "sameShape (AList.update p (File c' m') fs) fs"
proof -
  from assms have "p \<in> fst ` set fs" by (metis map_of_eq_None_iff option.distinct(1))
  then have "map fst (AList.update p (File c' m') fs) = map fst fs"
    by (simp add: update_keys)
  with assms show ?thesis by (auto simp: sameShape_def update_conv')
qed

lemma sameShape_blocked: "sameShape fs' fs \<Longrightarrow> blocked fs' q = blocked fs q"
  by (rule blocked_cong) (auto simp: sameShape_def, (metis)+)

lemma sameShape_stat:
  assumes "sameShape fs' fs"
  shows "stat fs' q = stat fs q \<or>
     (\<exists>c m c' m'. stat fs q = Inr (File c m) \<and> stat fs' q = Inr (File c' m'))"
proof -
  from assms have "map_of fs' q = map_of fs q \<or> (isFile (map_of fs' q) \<and> isFile (map_of fs q))"
    by (simp add: sameShape_def)
  then show ?thesis
  proof
    assume "map_of fs' q = map_of fs q"
    then show ?thesis by (simp add: stat_alt sameShape_blocked[OF assms])
  next
    assume "isFile (map_of fs' q) \<and> isFile (map_of fs q)"
    then obtain c m c' m' where "map_of fs q = Some (File c m)" "map_of fs' q = Some (File c' m')"
      by (metis isFile.elims(2))
    then show ?thesis by (auto simp: stat_alt sameShape_blocked[OF assms])
  qed
qed

lemma sameShape_isRegular: "sameShape fs' fs \<Longrightarrow> isRegular fs' q = isRegular fs q"
  using sameShape_stat[of fs' fs q] by (auto simp: isRegular_def)

lemma walkFiles_sameShape:
  assumes "sameShape fs' fs"
  shows "walkFiles fs' root = walkFiles fs root"
proof -
  have keys: "map fst fs' = map fst fs" using assms by (simp add: sameShape_def)
  from sameShape_stat[OF assms, of root] show ?thesis
  proof
    assume st: "stat fs' root = stat fs root"
    have reg: "isRegular fs' = isRegular fs"
      by (rule ext) (rule sameShape_isRegular[OF assms])
    show ?thesis by (simp only: walkFiles_def keys st reg)
  next
    assume "\<exists>c m c' m'. stat fs root = Inr (File c m) \<and> stat fs' root = Inr (File c' m')"
    then show ?thesis by (auto simp: walkFiles_def)
  qed
qed

lemma walkFiles_distinct: "walkFiles fs root = Inr ps \<Longrightarrow> distinct ps"
  by (auto simp: walkFiles_def split: sum.splits node.splits)

lemma walkFiles_regular:
  assumes "walkFiles fs root = Inr ps" "p \<in> set ps"
  shows "\<exists>c m. stat fs p = Inr (File c m)"
proof -
  from assms have "isRegular fs p \<or> (\<exists>c m. stat fs p = Inr (File c m))"
    by (auto simp: walkFiles_def split: sum.splits node.splits)
  then show ?thesis
    by (auto simp: isRegular_def split: sum.splits node.splits)
qed

lemma processAll_dry_None:
  "processAll fs ps data secretFn True = (fs', None) \<Longrightarrow>
     \<forall>p\<in>set ps. processFile fs p data secretFn True = (fs, None)"
proof (induction ps)
  case Nil
  then show ?case by simp
next
  case (Cons p ps)
  obtain f r where pf: "processFile fs p data secretFn True = (f, r)"
    by (cases "processFile fs p data secretFn True")
  moreover have "f = fs"
    using pf by (auto simp: processFile_def renderAndWrite_def split: sum.splits)
  ultimately show ?case using Cons by (cases r) auto
qed

lemma processFile_dry_renders:
  "processFile fs p data secretFn True = (fs, None) \<Longrightarrow> ReadFile fs p = Inr c \<Longrightarrow>
     \<exists>tmpl out. template_Parse c = Inr tmpl \<and> template_Execute tmpl data secretFn = Inr out"
  by (auto simp: processFile_def renderAndWrite_def split: sum.splits)

lemma processAll_passThrough:
  assumes "distinct ps"
    and "\<forall>p\<in>set ps. \<exists>c m tmpl out. stat fs p = Inr (File c m) \<and> template_Parse c = Inr tmpl
           \<and> valuesBraceFree data tmpl \<and> template_Execute tmpl data passThrough = Inr out"
  shows "\<exists>fs'. processAll fs ps data passThrough False = (fs', None) \<and> sameShape fs' fs
           \<and> (\<forall>p\<in>set ps. fixedFile fs' data p) \<and> (\<forall>q. q \<notin> set ps \<longrightarrow> stat fs' q = stat fs q)"
  using assms
proof (induction ps arbitrary: fs)
  case Nil
  then show ?case by (simp add: sameShape_refl)
next
  case (Cons p ps)
  from Cons.prems(2) obtain c m tmpl out where
    g: "stat fs p = Inr (File c m)" "template_Parse c = Inr tmpl" "valuesBraceFree data tmpl"
    and ex: "template_Execute tmpl data passThrough = Inr out"
    by auto
  define fs1 where "fs1 = AList.update p (File out m) fs"
  have step: "processFile fs p data passThrough False = (fs1, None)"
    unfolding fs1_def by (rule processFile_write[OF g(1,2) ex])
  have mp: "map_of fs p = Some (File c m)" using g(1) by (simp add: stat_Inr_File)
  have shape1: "sameShape fs1 fs" unfolding fs1_def by (rule sameShape_update[OF mp])
  have other: "stat fs1 q = stat fs q" if "q \<noteq> p" for q
    unfolding fs1_def using mp that by (rule stat_update_other)
  have here: "stat fs1 p = Inr (File out m)"
    unfolding fs1_def using g(1) by (rule stat_update_same)
  from rendered_fixed[OF g(2,3) ex] here have fixp: "fixedFile fs1 data p"
    by (auto simp: fixedFile_def)
  have "\<forall>q\<in>set ps. \<exists>c m tmpl out. stat fs1 q = Inr (File c m) \<and> template_Parse c = Inr tmpl
           \<and> valuesBraceFree data tmpl \<and> template_Execute tmpl data passThrough = Inr out"
    using Cons.prems other by (metis distinct.simps(2) list.set_intros(2))
  with Cons.IH[of fs1] Cons.prems(1) obtain fs' where
    r: "processAll fs1 ps data passThrough False = (fs', None)" "sameShape fs' fs1"
      "\<forall>q\<in>set ps. fixedFile fs' data q" "\<forall>q. q \<notin> set ps \<longrightarrow> stat fs' q = stat fs1 q"
    by auto
  have "p \<notin> set ps" using Cons.prems(1) by simp
  with r(4) have "stat fs' p = stat fs1 p" by simp
  with fixp have "fixedFile fs' data p" by (simp add: fixedFile_def)
  moreover have "processAll fs (p # ps) data passThrough False = (fs', None)"
    using step r(1) by simp
  moreover have "sameShape fs' fs" using r(2) shape1 by (rule sameShape_trans)
  moreover have "\<forall>q. q \<notin> set (p # ps) \<longrightarrow> stat fs' q = stat fs q"
    using r(4) other by simp
  ultimately show ?case using r(3) by auto
qed

section \<open>The claims\<close>



text \<open>
  Claim C2, as amended. For the trees \<open>A = {a: "1", b: "2"}\<close> and
  \<open>B = {a: "1", b: "3", c: "4"}\<close>, comparing \<open>A\<close> (source) against \<open>B\<close> (target) with no ignore
  patterns and deletions included prints exactly \<open>b\<close> as modified and \<open>c\<close> as deleted;
  comparing \<open>B\<close> (source) against \<open>A\<close> (target) with deletions excluded prints exactly \<open>b\<close>
  as modified and \<open>c\<close> as new, in \<open>compareDirs\<close> and in \<open>getDiffs\<close>, which returns \<open>b\<close> and
  \<open>c\<close> as the files to copy.
\<close>

theorem diff_A_B:
  "compareDirs treesAB [''A''] [''B''] [] True =
     ([(Modified, [''b'']), (Deleted, [''c''])], None)
   \<and> compareDirs treesAB [''B''] [''A''] [] False =
     ([(Modified, [''b'']), (New, [''c''])], None)
   \<and> getDiffs treesAB [''B''] [''A''] [] =
     ([[''b''], [''c'']], [(Modified, [''b'']), (New, [''c''])], None)"
  by code_simp

text \<open>
  Claim C2 as stated fails in its second half: with \<open>B\<close> as the source and deletions
  excluded, the file \<open>c\<close>, which only \<open>B\<close> has, is printed as new, so the result is not
  \<open>b\<close> alone.
\<close>

theorem diff_B_A_counterexample:
  "fst (compareDirs treesAB [''B''] [''A''] [] False) \<noteq> [(Modified, [''b''])]
   \<and> (New, [''c'']) \<in> set (fst (compareDirs treesAB [''B''] [''A''] [] False))"
  by code_simp

text \<open>
  Claim C3, as amended. A relative path that matches an ignore pattern never appears in
  the output of a comparison, whatever its state and in both directions (the walk over
  the source and the walk over the target of \<open>compareDirs\<close>, and \<open>getDiffs\<close>), and never
  appears as an unmanaged file in the output of the list command. (The first part of
  the list command, over the files of the repository, does not consult the patterns.)
\<close>

theorem ignored_never_reported:
  assumes "isIgnored (relString rel) ignores"
  shows "(st, rel) \<notin> set (fst (compareDirs fs sourceDir targetDir ignores checkAll))
    \<and> rel \<notin> set (fst (getDiffs fs sourceDir targetDir ignores))
    \<and> (st, rel) \<notin> set (fst (snd (getDiffs fs sourceDir targetDir ignores)))
    \<and> UNMANAGED (homeDir @ rel) \<notin> set (fst (listCmd fs localDir homeDir ignores listAll))"
proof -
  have "(st, rel) \<notin> set (fst (compareDirs fs sourceDir targetDir ignores checkAll))"
    using assms compareDirs_ignored by blast
  moreover have "(st', rel) \<notin> set (fst (snd (getDiffs fs sourceDir targetDir ignores)))" for st'
    using assms getDiffs_ignored by blast
  moreover from this have "rel \<notin> set (fst (getDiffs fs sourceDir targetDir ignores))"
    unfolding getDiffs_changes by force
  moreover have "UNMANAGED (homeDir @ rel) \<notin> set (fst (listCmd fs localDir homeDir ignores listAll))"
    using assms listCmd_unmanaged_ignored[of "homeDir @ rel" fs localDir homeDir ignores listAll]
    by auto
  ultimately show ?thesis by blast
qed

theorem ignored_never_reported_witness:
  "isIgnored (relString [''x.log'']) [''*.log'']
   \<and> (Deleted, [''x.log'']) \<in> set (fst (compareDirs repoHome [''repo''] [''home''] [] True))
   \<and> (Deleted, [''x.log'']) \<notin> set (fst (compareDirs repoHome [''repo''] [''home''] [''*.log''] True))
   \<and> (New, [''x.log'']) \<in> set (fst (snd (getDiffs repoHome [''home''] [''repo''] [])))
   \<and> [''x.log''] \<notin> set (fst (getDiffs repoHome [''home''] [''repo''] [''*.log'']))
   \<and> UNMANAGED [''home'', ''x.log''] \<in> set (fst (listCmd repoHome [''repo''] [''home''] [] True))
   \<and> UNMANAGED [''home'', ''x.log''] \<notin> set (fst (listCmd repoHome [''repo''] [''home''] [''*.log''] True))"
proof -
  have ig: "isIgnored (relString [''x.log'']) [''*.log'']"
    by (simp add: relString_def)
  have seen: "(Deleted, [''x.log'']) \<in> set (fst (compareDirs repoHome [''repo''] [''home''] [] True))
    \<and> (New, [''x.log'']) \<in> set (fst (snd (getDiffs repoHome [''home''] [''repo''] [])))
    \<and> UNMANAGED [''home'', ''x.log''] \<in> set (fst (listCmd repoHome [''repo''] [''home''] [] True))"
    by code_simp
  from ignored_never_reported[OF ig, of Deleted repoHome "[''repo'']" "[''home'']" True "[''home'']" "[''repo'']" True]
    ignored_never_reported[OF ig, of New repoHome "[''home'']" "[''repo'']" False "[''home'']" "[''repo'']" True]
  show ?thesis using ig seen by simp
qed

text \<open>
  Claim C3 as stated fails for the list command: the file \<open>b\<close> of the repository matches
  the ignore pattern \<open>b\<close> and is listed all the same.
\<close>

theorem list_ignored_counterexample:
  "isIgnored (relString [''b'']) [''b'']
   \<and> listCmd repoHome [''repo''] [''home''] [''b''] False = ([PRESENT [''home'', ''b'']], None)"
  by code_simp

text \<open>
  Claim C4. With \<open>required\<close> set, \<open>GetSecretFn\<close> fails with the store-unreadable error when
  the \<open>.env\<close> file cannot be read, a missing file included, and the function it returns
  fails with the key-not-found error on a key the store does not have. With \<open>required\<close>
  unset, a missing file is tolerated and gives a resolver, and this resolver fails with
  the key-not-found error on every key; a resolver over a store that was read fails in
  the same way on a key the store does not have.
\<close>

theorem secret_strictness:
  "(godotenv_Read parseEnv fs envPath = Inl err \<longrightarrow>
      GetSecretFn parseEnv fs envPath True = Inl (StoreUnreadable envPath err))
   \<and> (stat fs envPath = Inl ENOENT \<longrightarrow>
      GetSecretFn parseEnv fs envPath True = Inl (StoreUnreadable envPath (OpenError ENOENT)))
   \<and> (godotenv_Read parseEnv fs envPath = Inr envMap \<longrightarrow> envMap key = None \<longrightarrow>
      (\<exists>fn. GetSecretFn parseEnv fs envPath required = Inr fn
          \<and> fn key = Inl (KeyNotFound key envPath)))
   \<and> (stat fs envPath = Inl ENOENT \<longrightarrow>
      (\<exists>fn. GetSecretFn parseEnv fs envPath False = Inr fn
          \<and> (\<forall>k. fn k = Inl (KeyNotFound k envPath))))"
  by (auto simp: GetSecretFn_def godotenv_Read_def ReadFile_def lookupSecret_def
      split: sum.splits option.splits)

theorem secret_strictness_witness:
  "GetSecretFn plainEnv withEnv [''u'', ''.env''] True =
     Inl (StoreUnreadable [''u'', ''.env''] (OpenError ENOENT))
   \<and> (\<exists>fn. GetSecretFn plainEnv withEnv [''t'', ''.env''] True = Inr fn
        \<and> fn ''KEY'' = Inl (KeyNotFound ''KEY'' [''t'', ''.env'']))
   \<and> (\<exists>fn. GetSecretFn plainEnv withEnv [''t'', ''.env''] False = Inr fn
        \<and> fn ''KEY'' = Inl (KeyNotFound ''KEY'' [''t'', ''.env'']))
   \<and> (\<exists>fn. GetSecretFn plainEnv withEnv [''u'', ''.env''] False = Inr fn
        \<and> fn ''KEY'' = Inl (KeyNotFound ''KEY'' [''u'', ''.env'']))"
proof -
  have missing: "stat withEnv [''u'', ''.env''] = Inl ENOENT"
    by (simp add: stat_def withEnv_def)
  have loaded: "godotenv_Read plainEnv withEnv [''t'', ''.env''] =
      Inr (map_of [(''OTHER'', ''MySecret'')])"
    by (simp add: godotenv_Read_def ReadFile_def stat_def withEnv_def plainEnv_def keyValue_def)
  have absent: "map_of [(''OTHER'', ''MySecret'')] ''KEY'' = None" by simp
  from secret_strictness[of plainEnv withEnv "[''u'', ''.env'']" "OpenError ENOENT" "Map.empty" "''KEY''" True]
    secret_strictness[of plainEnv withEnv "[''t'', ''.env'']" "OpenError ENOENT"
      "map_of [(''OTHER'', ''MySecret'')]" "''KEY''" True]
    secret_strictness[of plainEnv withEnv "[''t'', ''.env'']" "OpenError ENOENT"
      "map_of [(''OTHER'', ''MySecret'')]" "''KEY''" False]
    missing loaded absent
  show ?thesis by blast
qed




text \<open>
  Claim C6, as amended. Take a tree in which every action of every walked file is a lookup
  of a dotted key, \<open>{{ .a.b }}\<close>, or a secret placeholder, \<open>{{ "KEY" | secret }}\<close>, with any
  white space inside the delimiters and a key of printable ASCII characters without the
  double quote and the backslash (a file may also end inside an action: it does not parse,
  and nothing is written); this is the condition that no walked file parses to
  \<open>Unsupported\<close>. Take settings such that no value which a walked file looks up prints with
  an opening brace in it. Then reifying the tree twice with the pass-through resolver
  gives what reifying it once gives: the second reification returns the file system and
  the outcome of the first.
\<close>

theorem passthrough_reify_idempotent:
  assumes plain: "\<forall>ps p c. walkFiles fs root = Inr ps \<longrightarrow> p \<in> set ps \<longrightarrow>
        ReadFile fs p = Inr c \<longrightarrow>
          template_Parse c \<noteq> Inl Unsupported
          \<and> (\<forall>tmpl. template_Parse c = Inr tmpl \<longrightarrow> valuesBraceFree data tmpl)"
    and first: "Reify fs root data passThrough False = (fs1, r)"
  shows "Reify fs1 root data passThrough False = (fs1, r)"
proof (cases "walkFiles fs root")
  case (Inl e)
  with first have "fs1 = fs" by (auto simp: Reify_def walkAndProcess_def)
  with first show ?thesis by simp
next
  case (Inr ps)
  obtain f rd where dry: "processAll fs ps data passThrough True = (f, rd)"
    by (cases "processAll fs ps data passThrough True")
  then have f: "f = fs" by (rule processAll_dry)
  show ?thesis
  proof (cases rd)
    case (Some err)
    with first dry f Inr have "fs1 = fs" by (auto simp: Reify_def walkAndProcess_def)
    with first show ?thesis by simp
  next
    case None
    have good: "\<forall>p\<in>set ps. \<exists>c m tmpl out. stat fs p = Inr (File c m)
           \<and> template_Parse c = Inr tmpl \<and> valuesBraceFree data tmpl
           \<and> template_Execute tmpl data passThrough = Inr out"
    proof
      fix p assume p: "p \<in> set ps"
      from walkFiles_regular[OF Inr p] obtain c m where st: "stat fs p = Inr (File c m)" by blast
      then have rd: "ReadFile fs p = Inr c" by (simp add: ReadFile_def)
      from processAll_dry_None dry f None p
      have "processFile fs p data passThrough True = (fs, None)" by blast
      from processFile_dry_renders[OF this rd] obtain tmpl out where
        t: "template_Parse c = Inr tmpl" "template_Execute tmpl data passThrough = Inr out"
        by blast
      from plain Inr p rd t(1) have "valuesBraceFree data tmpl" by blast
      with st t show "\<exists>c m tmpl out. stat fs p = Inr (File c m)
          \<and> template_Parse c = Inr tmpl \<and> valuesBraceFree data tmpl
          \<and> template_Execute tmpl data passThrough = Inr out"
        by blast
    qed
    from processAll_passThrough[OF walkFiles_distinct[OF Inr] good] obtain fs' where
      w: "processAll fs ps data passThrough False = (fs', None)" and
      sh: "sameShape fs' fs" and fx: "\<forall>p\<in>set ps. fixedFile fs' data p"
      by blast
    from first dry f None Inr w have res: "fs1 = fs'" "r = None"
      by (auto simp: Reify_def walkAndProcess_def)
    have "walkFiles fs' root = Inr ps" using walkFiles_sameShape[OF sh] Inr by simp
    then show ?thesis
      by (simp add: res Reify_def walkAndProcess_def processAll_fixed[OF fx])
  qed
qed

theorem passthrough_reify_idempotent_witness:
  "Reify reifyTree [''t''] nameAndUser passThrough False = (reifyTreeAfter, None)
   \<and> Reify reifyTreeAfter [''t''] nameAndUser passThrough False = (reifyTreeAfter, None)"
proof -
  have walk: "walkFiles reifyTree [''t''] =
      Inr [[''t'', ''a.conf''], [''t'', ''b.conf''], [''t'', ''c.conf'']]"
    by code_simp
  have a: "ReadFile reifyTree [''t'', ''a.conf''] = Inr ''name = {{ .name }}''"
    "template_Parse ''name = {{ .name }}'' = Inr [Text ''name = '', Action (Lookup [''name''])]"
    "valuesBraceFree nameAndUser [Text ''name = '', Action (Lookup [''name''])]"
    by code_simp+
  have b: "ReadFile reifyTree [''t'', ''b.conf''] = Inr ''user = {{ .user }}''"
    "template_Parse ''user = {{ .user }}'' = Inr [Text ''user = '', Action (Lookup [''user''])]"
    "valuesBraceFree nameAndUser [Text ''user = '', Action (Lookup [''user''])]"
    by code_simp+
  have c: \<open>ReadFile reifyTree [''t'', ''c.conf''] = Inr ''token = {{ "KEY" | secret }}''\<close>
    \<open>template_Parse ''token = {{ "KEY" | secret }}''
       = Inr [Text ''token = '', Action (Secret ''KEY'')]\<close>
    "valuesBraceFree nameAndUser [Text ''token = '', Action (Secret ''KEY'')]"
    by code_simp+
  have plain: "\<forall>ps p c. walkFiles reifyTree [''t''] = Inr ps \<longrightarrow> p \<in> set ps \<longrightarrow>
        ReadFile reifyTree p = Inr c \<longrightarrow>
          template_Parse c \<noteq> Inl Unsupported
          \<and> (\<forall>tmpl. template_Parse c = Inr tmpl \<longrightarrow> valuesBraceFree nameAndUser tmpl)"
    using walk a b c by auto
  have first: "Reify reifyTree [''t''] nameAndUser passThrough False = (reifyTreeAfter, None)"
    by code_simp
  from passthrough_reify_idempotent[OF plain first] first show ?thesis by simp
qed

text \<open>
  Claim C6 as stated fails when a value of the settings is itself a template: the first
  reification writes the value \<open>{{ .y }}\<close> into the file, and the second one resolves it.
\<close>

theorem passthrough_twice_counterexample:
  "Reify (nestedTree ''{{ .x }}'') [''t''] nested passThrough False =
     (nestedTree ''{{ .y }}'', None)
   \<and> Reify (nestedTree ''{{ .y }}'') [''t''] nested passThrough False = (nestedTree ''z'', None)
   \<and> nestedTree ''z'' \<noteq> nestedTree ''{{ .y }}''"
  by code_simp



text \<open>
  Claim C8. When the template of a file looks up a key that the settings do not have, at
  the top or inside a nested mapping, the execution fails, \<open>renderAndWrite\<close> returns the
  execution error under the name of the file and writes nothing, in a dry run or not;
  when the nodes before the lookup execute, the error is the missing key itself. The
  key is never replaced by an empty string or a default.
\<close>

theorem missing_key_fails:
  assumes parse: "template_Parse bytes = Inr tmpl"
    and use: "tmpl = pre @ Action (Lookup (ks @ k # ks')) # post"
    and outer: "evalField (Map data) ks = Inr (Map kvs)"
    and absent: "map_of kvs k = None"
  shows "(\<exists>e. template_Execute tmpl data secretFn = Inl e
            \<and> renderAndWrite fs name destPath bytes data secretFn dryRun
                = (fs, Some (ExecuteFailed name e)))
     \<and> (\<forall>out. template_Execute pre data secretFn = Inr out \<longrightarrow>
            template_Execute tmpl data secretFn = Inl (MissingKey k))"
proof -
  have ev: "evalAction data secretFn (Lookup (ks @ k # ks')) = Inl (MissingKey k)"
    using outer absent by (simp add: evalField_append)
  have "Action (Lookup (ks @ k # ks')) \<in> set tmpl" by (simp add: use)
  from template_Execute_fails[OF this refl ev] obtain e where
    e: "template_Execute tmpl data secretFn = Inl e" by blast
  then have "renderAndWrite fs name destPath bytes data secretFn dryRun
      = (fs, Some (ExecuteFailed name e))"
    by (simp add: renderAndWrite_def parse)
  moreover have "template_Execute pre data secretFn = Inr out \<Longrightarrow>
      template_Execute tmpl data secretFn = Inl (MissingKey k)" for out
    using ev by (simp add: use template_Execute_append del: evalAction.simps)
  ultimately show ?thesis using e by blast
qed

theorem missing_key_fails_witness:
  "renderAndWrite reifyTree [''t'', ''b.conf''] [''t'', ''b.conf''] ''user = {{ .user }}''
       nameOnly passThrough False
     = (reifyTree, Some (ExecuteFailed [''t'', ''b.conf''] (MissingKey ''user'')))
   \<and> template_Execute [Text ''mail = '', Action (Lookup [''git'', ''email''])] nameOnly passThrough
     = Inl (MissingKey ''email'')"
proof -
  have p1: "template_Parse ''user = {{ .user }}'' = Inr [Text ''user = '', Action (Lookup [''user''])]"
    by code_simp
  have u1: "[Text ''user = '', Action (Lookup [''user''])]
      = [Text ''user = ''] @ Action (Lookup ([] @ ''user'' # [])) # []"
    by simp
  have o1: "evalField (Map nameOnly) [] = Inr (Map nameOnly)" by simp
  have a1: "map_of nameOnly ''user'' = None" by (simp add: nameOnly_def)
  have p2: "template_Parse ''mail = {{ .git.email }}''
      = Inr [Text ''mail = '', Action (Lookup [''git'', ''email''])]"
    by code_simp
  have u2: "[Text ''mail = '', Action (Lookup [''git'', ''email''])]
      = [Text ''mail = ''] @ Action (Lookup ([''git''] @ ''email'' # [])) # []"
    by simp
  have o2: "evalField (Map nameOnly) [''git''] = Inr (Map [(''name'', Str ''n'')])"
    by (simp add: nameOnly_def)
  have a2: "map_of [(''name'', Str ''n'')] ''email'' = None" by simp
  have e1: "template_Execute [Text ''user = ''] nameOnly passThrough = Inr ''user = ''" by simp
  have e2: "template_Execute [Text ''mail = ''] nameOnly passThrough = Inr ''mail = ''" by simp
  from missing_key_fails[OF p1 u1 o1 a1, of passThrough reifyTree "[''t'', ''b.conf'']"
      "[''t'', ''b.conf'']" False]
    missing_key_fails[OF p2 u2 o2 a2, of passThrough reifyTree "[''t'', ''b.conf'']"
      "[''t'', ''b.conf'']" False]
    e1 e2
  show ?thesis by auto
qed




text \<open>
  Claim C10. When \<open>ReifyFile\<close> succeeds, the destination holds the rendered bytes; if the
  destination did not exist, it has the permission bits 0644 (420), whatever the bits
  of the source file are, and if it was a file already, it keeps the bits it had.
\<close>

theorem ReifyFile_permissions:
  assumes "ReifyFile fs sourcePath destPath data secretFn = (fs', None)"
  shows "\<exists>bytes tmpl out. ReadFile fs sourcePath = Inr bytes \<and> template_Parse bytes = Inr tmpl
      \<and> template_Execute tmpl data secretFn = Inr out
      \<and> (stat fs destPath = Inl ENOENT \<longrightarrow> stat fs' destPath = Inr (File out 420))
      \<and> (\<forall>c m. stat fs destPath = Inr (File c m) \<longrightarrow> stat fs' destPath = Inr (File out m))"
proof -
  from assms obtain bytes where rd: "ReadFile fs sourcePath = Inr bytes"
    by (auto simp: ReifyFile_def split: sum.splits)
  with assms obtain fs1 where mk: "MkdirAll fs (butlast destPath) = Inr fs1"
    by (auto simp: ReifyFile_def split: sum.splits)
  with assms rd have rw: "renderAndWrite fs1 sourcePath destPath bytes data secretFn False = (fs', None)"
    by (simp add: ReifyFile_def)
  then obtain tmpl where pt: "template_Parse bytes = Inr tmpl"
    by (auto simp: renderAndWrite_def split: sum.splits)
  with rw obtain out where ex: "template_Execute tmpl data secretFn = Inr out"
    by (auto simp: renderAndWrite_def split: sum.splits)
  define pm where "pm = (case stat fs1 destPath of Inr info \<Rightarrow> Mode info | Inl e \<Rightarrow> 420)"
  from rw pt ex have wr: "WriteFile fs1 destPath out pm = Inr fs'"
    by (auto simp: renderAndWrite_def pm_def Let_def split: sum.splits)
  from WriteFile_Inr[OF wr] obtain m' where
    d: "destPath \<noteq> []" "\<not> blocked fs1 destPath" and
    fs': "fs' = AList.update destPath (File out m') fs1" and
    old: "\<forall>c m0. map_of fs1 destPath = Some (File c m0) \<longrightarrow> m' = m0" and
    new: "map_of fs1 destPath = None \<longrightarrow> m' = pm"
    by auto
  have "\<not> blocked fs' destPath"
    using d(2) by (auto simp: blocked_def fs' update_conv')
  then have after: "stat fs' destPath = Inr (File out m')"
    using d(1) by (simp add: stat_alt fs' update_conv')
  have missing: "stat fs' destPath = Inr (File out 420)" if "stat fs destPath = Inl ENOENT"
  proof -
    from that d(1) have none: "map_of fs destPath = None"
      by (auto simp: stat_alt split: if_splits option.splits)
    have "destPath \<notin> set (tl (prefixes (butlast destPath)))"
    proof
      assume "destPath \<in> set (tl (prefixes (butlast destPath)))"
      then have "destPath \<in> set (prefixes (butlast destPath))" by (rule list.set_sel(2)[rotated]) simp
      then have "prefix destPath (butlast destPath)" by simp
      then have "length destPath \<le> length (butlast destPath)"
        by (rule prefix_length_le)
      with d(1) show False by (cases destPath rule: rev_cases) auto
    qed
    with mk none have none1: "map_of fs1 destPath = None"
      unfolding MkdirAll_def by (simp add: mkdirs_map_of)
    with d have "stat fs1 destPath = Inl ENOENT" by (simp add: stat_alt)
    then have "pm = 420" by (simp add: pm_def)
    with new none1 after show ?thesis by simp
  qed
  have kept: "stat fs' destPath = Inr (File out m)" if "stat fs destPath = Inr (File c m)" for c m
  proof -
    from MkdirAll_stat_File[OF mk that] have "map_of fs1 destPath = Some (File c m)"
      by (simp add: stat_Inr_File)
    with old after show ?thesis by simp
  qed
  from rd pt ex missing kept show ?thesis by blast
qed

theorem ReifyFile_permissions_witness:
  "stat (fst (ReifyFile reifyTree [''t'', ''b.conf''] [''out'', ''sub'', ''b.conf'']
            nameAndUser passThrough)) [''out'', ''sub'', ''b.conf'']
     = Inr (File ''user = u'' 420)
   \<and> stat reifyTree [''t'', ''b.conf''] = Inr (File ''user = {{ .user }}'' 384)
   \<and> stat (fst (ReifyFile reifyTree [''t'', ''b.conf''] [''t'', ''a.conf'']
            nameAndUser passThrough)) [''t'', ''a.conf'']
     = Inr (File ''user = u'' 416)"
proof -
  have "snd (ReifyFile reifyTree [''t'', ''b.conf''] [''out'', ''sub'', ''b.conf'']
      nameAndUser passThrough) = None"
    by code_simp
  then have r1: "ReifyFile reifyTree [''t'', ''b.conf''] [''out'', ''sub'', ''b.conf'']
      nameAndUser passThrough
    = (fst (ReifyFile reifyTree [''t'', ''b.conf''] [''out'', ''sub'', ''b.conf'']
      nameAndUser passThrough), None)"
    by (metis prod.collapse)
  have "snd (ReifyFile reifyTree [''t'', ''b.conf''] [''t'', ''a.conf'']
      nameAndUser passThrough) = None"
    by code_simp
  then have r2: "ReifyFile reifyTree [''t'', ''b.conf''] [''t'', ''a.conf'']
      nameAndUser passThrough
    = (fst (ReifyFile reifyTree [''t'', ''b.conf''] [''t'', ''a.conf'']
      nameAndUser passThrough), None)"
    by (metis prod.collapse)
  have src: "ReadFile reifyTree [''t'', ''b.conf''] = Inr ''user = {{ .user }}''
      \<and> stat reifyTree [''t'', ''b.conf''] = Inr (File ''user = {{ .user }}'' 384)
      \<and> template_Parse ''user = {{ .user }}'' = Inr [Text ''user = '', Action (Lookup [''user''])]
      \<and> template_Execute [Text ''user = '', Action (Lookup [''user''])] nameAndUser passThrough
          = Inr ''user = u''"
    by code_simp
  have d1: "stat reifyTree [''out'', ''sub'', ''b.conf''] = Inl ENOENT" by code_simp
  have d2: "stat reifyTree [''t'', ''a.conf''] = Inr (File ''name = {{ .name }}'' 416)"
    by code_simp
  from ReifyFile_permissions[OF r1] ReifyFile_permissions[OF r2] src d1 d2
  show ?thesis by auto
qed

end
